theory Spec2Isabelle
  imports Complex_Main "HOL-Library.Sublist"
begin

section \<open>Shared data model\<close>

text \<open>
  Python strings are modelled as \<^typ>\<open>string\<close>, one \<^typ>\<open>char\<close> per Python character.
  Embedding vectors and similarity scores are opaque float sequences and floats; they are
  modelled over \<^typ>\<open>real\<close> and never computed with.
\<close>

type_synonym embedding = "real list"

text \<open>
  Every \<open>raise\<close> of the source and every exception of an external collaborator is a value:
  the exception class and the message that \<open>str(e)\<close> yields.
\<close>

datatype exn_kind =
    RateLimitError | APIConnectionError | APITimeoutError | APIError
  | ValueError | IndexError | KeyError | ValidationError | OtherException

datatype error = Raise exn_kind string

fun str_of_error :: "error \<Rightarrow> string" where
  "str_of_error (Raise k msg) = msg"

text \<open>Python's \<open>dict.get(key, default)\<close> on a dictionary of strings.\<close>

definition dict_get :: "(string \<rightharpoonup> string) \<Rightarrow> string \<Rightarrow> string \<Rightarrow> string" where
  "dict_get d k dflt = (case d k of Some v \<Rightarrow> v | None \<Rightarrow> dflt)"

text \<open>Python's \<open>str.strip()\<close>: leading and trailing whitespace removed.\<close>

definition is_space :: "char \<Rightarrow> bool" where
  "is_space c = (c \<in> set [CHR '' '', CHR 0x09, CHR 0x0A, CHR 0x0B, CHR 0x0C, CHR 0x0D,
                           CHR 0x1C, CHR 0x1D, CHR 0x1E, CHR 0x1F, CHR 0x85, CHR 0xA0])"

definition strip :: "string \<Rightarrow> string" where
  "strip s = rev (dropWhile is_space (rev (dropWhile is_space s)))"

text \<open>Python's \<open>sep.join(parts)\<close>.\<close>

fun join :: "string \<Rightarrow> string list \<Rightarrow> string" where
  "join sep [] = []"
| "join sep [p] = p"
| "join sep (p # q # ps) = p @ sep @ join sep (q # ps)"


section \<open>The generative backend\<close>

text \<open>
  The prompt templates of \<open>app/prompts/summary_prompts.py\<close> and \<open>app/chains/qa_chain.py\<close>.
  Only their identity matters to the chains.
\<close>

datatype prompt =
    BriefSummary | StandardSummary | DetailedSummary | TechnicalSummary | FewShotSummary
  | MapSummary | ReduceSummary
  | QAPrompt | QAWithSources | ConversationalQA

text \<open>
  The language model and the LangChain chains built on it are external. A call may fail,
  and two calls with the same input need not agree, so the backend carries a state \<open>'l\<close>
  of its own: \<open>llm_invoke\<close> is \<open>LLMChain(llm, prompt).invoke(inputs)\<close>,
  \<open>map_reduce_invoke\<close> is the \<open>MapReduceDocumentsChain\<close> of \<open>_map_reduce_summarize\<close> run on
  the chunks, and \<open>split_text\<close> is \<open>RecursiveCharacterTextSplitter(chunk_size, chunk_overlap).split_text\<close>.
\<close>

record 'l llm_env =
  llm_invoke :: "'l \<Rightarrow> prompt \<Rightarrow> (string \<times> string) list \<Rightarrow> (error + (string \<rightharpoonup> string)) \<times> 'l"
  map_reduce_invoke :: "'l \<Rightarrow> string list \<Rightarrow> (error + (string \<rightharpoonup> string)) \<times> 'l"
  split_text :: "nat \<Rightarrow> nat \<Rightarrow> string \<Rightarrow> error + string list"

section \<open>SummarizationChain (app/chains/summarization_chain.py)\<close>

record 'l summarization_chain =
  sum_llm :: 'l
  max_doc_length :: int

text \<open>The constructor: \<open>self.max_doc_length = 4000\<close> tokens, whatever model is chosen.\<close>

definition init_summarization_chain :: "'l \<Rightarrow> 'l summarization_chain" where
  "init_summarization_chain l = \<lparr>sum_llm = l, max_doc_length = 4000\<rparr>"

text \<open>The dictionaries returned by \<open>summarize\<close>; a key that a path does not set is \<open>None\<close>.\<close>

record summary_result =
  summary :: string
  error_msg :: "string option"
  length_field :: string
  document_type_field :: string
  method_field :: "string option"
  num_chunks :: "nat option"

definition get_summary_prompt :: "string \<Rightarrow> string \<Rightarrow> prompt" where
  "get_summary_prompt len document_type =
     (if document_type = ''technical'' then TechnicalSummary
      else if document_type = ''few-shot'' then FewShotSummary
      else if len = ''brief'' then BriefSummary
      else if len = ''detailed'' then DetailedSummary
      else StandardSummary)"

definition estimate_tokens :: "string \<Rightarrow> int" where
  "estimate_tokens text = int (length text) div 4"

definition map_reduce_summarize ::
  "'l llm_env \<Rightarrow> 'l summarization_chain \<Rightarrow> string
     \<Rightarrow> (error + summary_result) \<times> 'l summarization_chain" where
  "map_reduce_summarize env sc text =
     (case split_text env 3000 200 text of
        Inl e \<Rightarrow> (Inl e, sc)
      | Inr chunks \<Rightarrow>
          (case map_reduce_invoke env (sum_llm sc) chunks of
             (Inl e, l') \<Rightarrow> (Inl e, sc\<lparr>sum_llm := l'\<rparr>)
           | (Inr result, l') \<Rightarrow>
               (Inr \<lparr>summary = strip (dict_get result ''output_text'' ''''),
                     error_msg = None,
                     length_field = ''standard'',
                     document_type_field = ''general'',
                     method_field = Some ''map_reduce'',
                     num_chunks = Some (length chunks)\<rparr>,
                sc\<lparr>sum_llm := l'\<rparr>)))"

definition summarize ::
  "'l llm_env \<Rightarrow> 'l summarization_chain \<Rightarrow> string \<Rightarrow> string \<Rightarrow> string
     \<Rightarrow> (error + summary_result) \<times> 'l summarization_chain" where
  "summarize env sc text len document_type =
     (let prompt = get_summary_prompt len document_type in
      if estimate_tokens text > max_doc_length sc then map_reduce_summarize env sc text
      else
        (case llm_invoke env (sum_llm sc) prompt [(''text'', text)] of
           (Inl e, l') \<Rightarrow> (Inl e, sc\<lparr>sum_llm := l'\<rparr>)
         | (Inr result, l') \<Rightarrow>
             (Inr \<lparr>summary = strip (dict_get result ''text'' ''''),
                   error_msg = None,
                   length_field = len,
                   document_type_field = document_type,
                   method_field = Some ''single_pass'',
                   num_chunks = None\<rparr>,
              sc\<lparr>sum_llm := l'\<rparr>)))"

text \<open>The entry that \<open>batch_summarize\<close> appends for one text: the summary, or the error record.\<close>

definition batch_entry :: "string \<Rightarrow> string \<Rightarrow> error + summary_result \<Rightarrow> summary_result" where
  "batch_entry len document_type r =
     (case r of
        Inr s \<Rightarrow> s
      | Inl e \<Rightarrow> \<lparr>summary = '''',
                  error_msg = Some (str_of_error e),
                  length_field = len,
                  document_type_field = document_type,
                  method_field = None,
                  num_chunks = None\<rparr>)"

text \<open>The \<open>for\<close> loop of \<open>batch_summarize\<close>, with the list \<open>summaries\<close> built so far.\<close>

fun batch_summarize_loop ::
  "'l llm_env \<Rightarrow> 'l summarization_chain \<Rightarrow> string list \<Rightarrow> string \<Rightarrow> string
     \<Rightarrow> summary_result list \<Rightarrow> summary_result list \<times> 'l summarization_chain" where
  "batch_summarize_loop env sc [] len document_type summaries = (summaries, sc)"
| "batch_summarize_loop env sc (text # texts) len document_type summaries =
     (case summarize env sc text len document_type of
        (r, sc') \<Rightarrow>
          batch_summarize_loop env sc' texts len document_type
            (summaries @ [batch_entry len document_type r]))"

definition batch_summarize ::
  "'l llm_env \<Rightarrow> 'l summarization_chain \<Rightarrow> string list \<Rightarrow> string \<Rightarrow> string
     \<Rightarrow> summary_result list \<times> 'l summarization_chain" where
  "batch_summarize env sc texts len document_type =
     batch_summarize_loop env sc texts len document_type []"

section \<open>QAChain (app/chains/qa_chain.py)\<close>

record turn =
  question :: string
  answer :: string

record 'l qa_chain =
  qa_llm :: 'l
  chat_history :: "turn list"

record qa_result =
  qa_answer :: string
  qa_question :: string
  sources_included :: bool


definition answer_question ::
  "'l llm_env \<Rightarrow> 'l qa_chain \<Rightarrow> string \<Rightarrow> string \<Rightarrow> bool
     \<Rightarrow> (error + qa_result) \<times> 'l qa_chain" where
  "answer_question env qa q context include_sources =
     (let prompt = (if include_sources then QAWithSources else QAPrompt) in
      case llm_invoke env (qa_llm qa) prompt [(''context'', context), (''question'', q)] of
        (Inl e, l') \<Rightarrow> (Inl e, qa\<lparr>qa_llm := l'\<rparr>)
      | (Inr result, l') \<Rightarrow>
          (Inr \<lparr>qa_answer = strip (dict_get result ''text'' ''''),
                qa_question = q,
                sources_included = include_sources\<rparr>,
           qa\<lparr>qa_llm := l'\<rparr>))"




definition clear_history :: "'l qa_chain \<Rightarrow> 'l qa_chain" where
  "clear_history qa = qa\<lparr>chat_history := []\<rparr>"

section \<open>EmbeddingsService (app/core/embeddings_service.py)\<close>

text \<open>
  The embedding backend (\<open>OpenAIEmbeddings\<close>) and the MD5 digest of \<open>_get_cache_key\<close> are
  external. The backend has a state \<open>'b\<close> of its own, so that a call may fail once and
  succeed when repeated.
\<close>

record 'b embed_env =
  md5_hexdigest :: "string \<Rightarrow> string"
  be_embed_query :: "'b \<Rightarrow> string \<Rightarrow> (error + embedding) \<times> 'b"
  be_embed_documents :: "'b \<Rightarrow> string list \<Rightarrow> (error + embedding list) \<times> 'b"

record 'b embeddings_service =
  backend :: 'b
  batch_size :: int
  use_cache :: bool
  cache :: "string \<rightharpoonup> embedding"

definition get_cache_key :: "'b embed_env \<Rightarrow> string \<Rightarrow> string" where
  "get_cache_key env text = md5_hexdigest env text"

definition embed_text ::
  "'b embed_env \<Rightarrow> 'b embeddings_service \<Rightarrow> string
     \<Rightarrow> (error + embedding) \<times> 'b embeddings_service" where
  "embed_text env s text =
     (case (if use_cache s then cache s (get_cache_key env text) else None) of
        Some v \<Rightarrow> (Inr v, s)
      | None \<Rightarrow>
          (case be_embed_query env (backend s) text of
             (Inl e, b') \<Rightarrow> (Inl e, s\<lparr>backend := b'\<rparr>)
           | (Inr v, b') \<Rightarrow>
               (Inr v,
                s\<lparr>backend := b',
                  cache := (if use_cache s then (cache s)(get_cache_key env text \<mapsto> v)
                            else cache s)\<rparr>)))"

text \<open>
  The first loop of \<open>embed_texts\<close>: position \<open>i\<close> of the input is looked up in the cache; the
  accumulator is \<open>(embeddings, texts_to_embed, text_indices)\<close>, a placeholder being \<open>None\<close>.
\<close>

fun check_cache ::
  "'b embed_env \<Rightarrow> (string \<rightharpoonup> embedding) \<Rightarrow> nat \<Rightarrow> string list
     \<Rightarrow> embedding option list \<times> string list \<times> nat list
     \<Rightarrow> embedding option list \<times> string list \<times> nat list" where
  "check_cache env c i [] acc = acc"
| "check_cache env c i (text # texts) (embeddings, texts_to_embed, text_indices) =
     (case c (get_cache_key env text) of
        Some v \<Rightarrow>
          check_cache env c (Suc i) texts (embeddings @ [Some v], texts_to_embed, text_indices)
      | None \<Rightarrow>
          check_cache env c (Suc i) texts
            (embeddings @ [None], texts_to_embed @ [text], text_indices @ [i]))"

text \<open>
  The inner loop over \<open>enumerate(batch_embeddings)\<close>, at batch offset \<open>i\<close> and position
  \<open>j\<close>. An index out of range raises; what was stored before stays stored.
\<close>

fun store_batch ::
  "'b embed_env \<Rightarrow> bool \<Rightarrow> string list \<Rightarrow> nat list \<Rightarrow> nat \<Rightarrow> nat \<Rightarrow> embedding list
     \<Rightarrow> embedding option list \<times> (string \<rightharpoonup> embedding)
     \<Rightarrow> error option \<times> embedding option list \<times> (string \<rightharpoonup> embedding)" where
  "store_batch env uc texts text_indices i j [] (embeddings, c) = (None, embeddings, c)"
| "store_batch env uc texts text_indices i j (v # rest) (embeddings, c) =
     (if length text_indices \<le> i + j
      then (Some (Raise IndexError ''list index out of range''), embeddings, c)
      else
        (let idx = text_indices ! (i + j) in
         if length embeddings \<le> idx
         then (Some (Raise IndexError ''list assignment index out of range''), embeddings, c)
         else if uc \<and> length texts \<le> idx
         then (Some (Raise IndexError ''list index out of range''), embeddings[idx := Some v], c)
         else
           store_batch env uc texts text_indices i (Suc j) rest
             (embeddings[idx := Some v],
              if uc then c(get_cache_key env (texts ! idx) \<mapsto> v) else c)))"

text \<open>
  The outer loop \<open>for i in range(0, len(texts_to_embed), batch_size)\<close> for a positive step
  \<open>bs\<close>, from offset \<open>i\<close>.
\<close>

function embed_batches ::
  "'b embed_env \<Rightarrow> nat \<Rightarrow> bool \<Rightarrow> string list \<Rightarrow> string list \<Rightarrow> nat list \<Rightarrow> nat \<Rightarrow> 'b
     \<Rightarrow> embedding option list \<times> (string \<rightharpoonup> embedding)
     \<Rightarrow> error option \<times> (embedding option list \<times> (string \<rightharpoonup> embedding)) \<times> 'b" where
  "embed_batches env bs uc texts texts_to_embed text_indices i b st =
     (if bs = 0 \<or> length texts_to_embed \<le> i then (None, st, b)
      else
        (case be_embed_documents env b (take bs (drop i texts_to_embed)) of
           (Inl e, b') \<Rightarrow> (Some e, st, b')
         | (Inr batch_embeddings, b') \<Rightarrow>
             (case store_batch env uc texts text_indices i 0 batch_embeddings st of
                (Some e, st') \<Rightarrow> (Some e, st', b')
              | (None, st') \<Rightarrow>
                  embed_batches env bs uc texts texts_to_embed text_indices (i + bs) b' st')))"
  by pat_completeness auto
termination
  by (relation "measure (\<lambda>(env, bs, uc, texts, tte, tidx, i, b, st). length tte - i)") auto

declare embed_batches.simps [simp del]

definition embed_texts ::
  "'b embed_env \<Rightarrow> 'b embeddings_service \<Rightarrow> string list
     \<Rightarrow> (error + embedding option list) \<times> 'b embeddings_service" where
  "embed_texts env s texts =
     (case (if use_cache s then check_cache env (cache s) 0 texts ([], [], [])
            else (replicate (length texts) None, texts, [0..<length texts])) of
        (embeddings, texts_to_embed, text_indices) \<Rightarrow>
          if texts_to_embed = [] then (Inr embeddings, s)
          else if batch_size s = 0
          then (Inl (Raise ValueError ''range() arg 3 must not be zero''), s)
          else if batch_size s < 0 then (Inr embeddings, s)
          else
            (case embed_batches env (nat (batch_size s)) (use_cache s) texts texts_to_embed
                    text_indices 0 (backend s) (embeddings, cache s) of
               (Some e, (embs, c), b) \<Rightarrow> (Inl e, s\<lparr>backend := b, cache := c\<rparr>)
             | (None, (embs, c), b) \<Rightarrow> (Inr embs, s\<lparr>backend := b, cache := c\<rparr>)))"

text \<open>
  What is assumed of the backend where a batch is compared with single calls: the outcome
  of embedding a text is a function \<open>E\<close> of the text, whatever the backend's state; a batch
  call that succeeds returns the vectors of its texts, in order; and a batch call fails only
  if one of its texts fails.
\<close>

definition backend_answers :: "'b embed_env \<Rightarrow> (string \<Rightarrow> error + embedding) \<Rightarrow> bool" where
  "backend_answers env E =
     ((\<forall>b t. fst (be_embed_query env b t) = E t) \<and>
      (\<forall>b ts. case fst (be_embed_documents env b ts) of
                 Inr vs \<Rightarrow> map E ts = map Inr vs
               | Inl e \<Rightarrow> (\<exists>t\<in>set ts. \<exists>e'. E t = Inl e')))"

text \<open>Documents, metadata values and the vectors prepared for the index.\<close>

datatype meta_value = MStr string | MInt int | MReal real | MBool bool | MNone

record document =
  page_content :: string
  metadata :: "string \<rightharpoonup> meta_value"

record index_vector =
  vec_id :: meta_value
  vec_values :: "embedding option"
  vec_metadata :: "string \<rightharpoonup> meta_value"

text \<open>Python's \<open>str(i)\<close> for a natural number, as used by the f-strings.\<close>

fun str_of_nat :: "nat \<Rightarrow> string" where
  "str_of_nat n =
     (if n < 10 then [''0123456789'' ! n]
      else str_of_nat (n div 10) @ [''0123456789'' ! (n mod 10)])"

declare str_of_nat.simps [simp del]

fun prepare_vectors :: "nat \<Rightarrow> (document \<times> embedding option) list \<Rightarrow> index_vector list" where
  "prepare_vectors i [] = []"
| "prepare_vectors i ((doc, v) # rest) =
     \<lparr>vec_id = (case metadata doc ''id'' of
                  Some x \<Rightarrow> x
                | None \<Rightarrow> MStr (''doc_'' @ str_of_nat i)),
      vec_values = v,
      vec_metadata = (metadata doc)(''text'' \<mapsto> MStr (take 1000 (page_content doc)))\<rparr>
     # prepare_vectors (Suc i) rest"

definition embed_documents ::
  "'b embed_env \<Rightarrow> 'b embeddings_service \<Rightarrow> document list
     \<Rightarrow> (error + index_vector list) \<times> 'b embeddings_service" where
  "embed_documents env s documents =
     (let texts = map page_content documents in
      case embed_texts env s texts of
        (Inl e, s') \<Rightarrow> (Inl e, s')
      | (Inr embeddings, s') \<Rightarrow> (Inr (prepare_vectors 0 (zip documents embeddings)), s'))"

section \<open>SearchService (app/services/search_service.py)\<close>

text \<open>
  A match of the index is a dictionary whose keys may be absent. \<open>pc_fetch\<close> and
  \<open>pc_query\<close> are \<open>PineconeService.fetch(ids, namespace)\<close> and
  \<open>PineconeService.query(query_vector, top_k, namespace, filter, include_metadata)\<close>; the
  index behind them is external.
\<close>

record match =
  match_id :: "string option"
  match_score :: "real option"
  match_metadata :: "(string \<rightharpoonup> meta_value) option"

record fetched_vector =
  fv_values :: "embedding option"

record pinecone_env =
  pc_fetch :: "string list \<Rightarrow> string \<Rightarrow> error + (string \<times> fetched_vector) list"
  pc_query :: "embedding \<Rightarrow> int \<Rightarrow> string \<Rightarrow> (string \<times> meta_value) list option \<Rightarrow> bool
                 \<Rightarrow> error + match list"

record search_result =
  document_id :: string
  score :: real
  text_field :: string
  result_metadata :: "string \<rightharpoonup> meta_value"

text \<open>
  \<open>match.get('metadata', {}).get('text', '')\<close>, validated as the \<open>str\<close> field \<open>text\<close> of
  the model \<open>SearchResult\<close>.
\<close>

definition match_text :: "match \<Rightarrow> error + string" where
  "match_text m =
     (case match_metadata m of
        None \<Rightarrow> Inr []
      | Some md \<Rightarrow>
          (case md ''text'' of
             None \<Rightarrow> Inr []
           | Some (MStr t) \<Rightarrow> Inr t
           | Some _ \<Rightarrow> Inl (Raise ValidationError ''Input should be a valid string'')))"

definition match_metadata_or_empty :: "match \<Rightarrow> (string \<rightharpoonup> meta_value)" where
  "match_metadata_or_empty m = (case match_metadata m of None \<Rightarrow> Map.empty | Some md \<Rightarrow> md)"

text \<open>The result built in the loop of \<open>search\<close>: absent keys take their defaults.\<close>

definition search_result_of :: "match \<Rightarrow> error + search_result" where
  "search_result_of m =
     (case match_text m of
        Inl e \<Rightarrow> Inl e
      | Inr t \<Rightarrow>
          Inr \<lparr>document_id = (case match_id m of None \<Rightarrow> [] | Some i \<Rightarrow> i),
               score = (case match_score m of None \<Rightarrow> 0 | Some x \<Rightarrow> x),
               text_field = t,
               result_metadata = match_metadata_or_empty m\<rparr>)"

fun format_results :: "match list \<Rightarrow> search_result list \<Rightarrow> error + search_result list" where
  "format_results [] results = Inr results"
| "format_results (m # matches) results =
     (case search_result_of m of
        Inl e \<Rightarrow> Inl e
      | Inr r \<Rightarrow> format_results matches (results @ [r]))"

record ('b, 'l) search_service =
  embeddings_service :: "'b embeddings_service"
  search_qa_chain :: "'l qa_chain"

text \<open>The dictionary returned by \<open>search\<close>; the elapsed time is not part of the model.\<close>

record search_response =
  resp_query :: string
  resp_results :: "search_result list"
  total_results :: nat

record answer_response =
  ans_query :: string
  ans_results :: "search_result list"
  ans_total_results :: nat
  ans_answer :: string

definition search ::
  "'b embed_env \<Rightarrow> pinecone_env \<Rightarrow> ('b, 'l) search_service \<Rightarrow> string \<Rightarrow> int \<Rightarrow> string
     \<Rightarrow> (string \<times> meta_value) list option
     \<Rightarrow> (error + search_response) \<times> ('b, 'l) search_service" where
  "search eenv pc svc query top_k namespace filter_arg =
     (case embed_text eenv (embeddings_service svc) query of
        (Inl e, es') \<Rightarrow> (Inl e, svc\<lparr>embeddings_service := es'\<rparr>)
      | (Inr query_embedding, es') \<Rightarrow>
          (case pc_query pc query_embedding top_k namespace filter_arg True of
             Inl e \<Rightarrow> (Inl e, svc\<lparr>embeddings_service := es'\<rparr>)
           | Inr matches \<Rightarrow>
               (case format_results matches [] of
                  Inl e \<Rightarrow> (Inl e, svc\<lparr>embeddings_service := es'\<rparr>)
                | Inr rs \<Rightarrow>
                    (Inr \<lparr>resp_query = query, resp_results = rs, total_results = length rs\<rparr>,
                     svc\<lparr>embeddings_service := es'\<rparr>))))"

text \<open>The context of \<open>search_with_answer\<close>: \<open>[Source i+1] text\<close> for result \<open>i\<close>.\<close>

fun context_parts :: "nat \<Rightarrow> search_result list \<Rightarrow> string list" where
  "context_parts i [] = []"
| "context_parts i (r # rs) =
     (''[Source '' @ str_of_nat (i + 1) @ ''] '' @ text_field r) # context_parts (Suc i) rs"

definition search_with_answer ::
  "'b embed_env \<Rightarrow> pinecone_env \<Rightarrow> 'l llm_env \<Rightarrow> ('b, 'l) search_service \<Rightarrow> string \<Rightarrow> int
     \<Rightarrow> (error + answer_response) \<times> ('b, 'l) search_service" where
  "search_with_answer eenv pc lenv svc query top_k =
     (case search eenv pc svc query top_k [] None of
        (Inl e, svc') \<Rightarrow> (Inl e, svc')
      | (Inr search_results, svc') \<Rightarrow>
          (let context = join [CHR 0x0A, CHR 0x0A] (context_parts 0 (resp_results search_results)) in
           case answer_question lenv (search_qa_chain svc') query context True of
             (Inl e, qa') \<Rightarrow> (Inl e, svc'\<lparr>search_qa_chain := qa'\<rparr>)
           | (Inr answer_result, qa') \<Rightarrow>
               (Inr \<lparr>ans_query = resp_query search_results,
                     ans_results = resp_results search_results,
                     ans_total_results = total_results search_results,
                     ans_answer = qa_answer answer_result\<rparr>,
                svc'\<lparr>search_qa_chain := qa'\<rparr>)))"

text \<open>Python's \<open>xs[:k]\<close>; a negative \<open>k\<close> drops the last \<open>-k\<close> elements.\<close>

definition py_prefix :: "int \<Rightarrow> 'a list \<Rightarrow> 'a list" where
  "py_prefix k xs = (if 0 \<le> k then take (nat k) xs else take (nat (int (length xs) + k)) xs)"

text \<open>
  The loop of \<open>find_similar_documents\<close>: \<open>match['id']\<close> and \<open>match['score']\<close> raise
  \<open>KeyError\<close> when absent.
\<close>

fun similar_results ::
  "string \<Rightarrow> match list \<Rightarrow> search_result list \<Rightarrow> error + search_result list" where
  "similar_results doc_id [] results = Inr results"
| "similar_results doc_id (m # matches) results =
     (case match_id m of
        None \<Rightarrow> Inl (Raise KeyError ''id'')
      | Some i \<Rightarrow>
          if i \<noteq> doc_id then
            (case match_score m of
               None \<Rightarrow> Inl (Raise KeyError ''score'')
             | Some x \<Rightarrow>
                 (case match_text m of
                    Inl e \<Rightarrow> Inl e
                  | Inr t \<Rightarrow>
                      similar_results doc_id matches
                        (results @ [\<lparr>document_id = i, score = x, text_field = t,
                                     result_metadata = match_metadata_or_empty m\<rparr>])))
          else similar_results doc_id matches results)"

text \<open>A match that carries an id, a score and a text that is a string (or no text).\<close>

definition complete_match :: "match \<Rightarrow> bool" where
  "complete_match m =
     (match_id m \<noteq> None \<and> match_score m \<noteq> None \<and>
      (case match_text m of Inr t \<Rightarrow> True | Inl e \<Rightarrow> False))"

definition find_similar_documents ::
  "pinecone_env \<Rightarrow> string \<Rightarrow> int \<Rightarrow> error + search_result list" where
  "find_similar_documents pc doc_id top_k =
     (case pc_fetch pc [doc_id] [] of
        Inl e \<Rightarrow> Inl e
      | Inr vectors \<Rightarrow>
          if vectors = [] then Inl (Raise ValueError (''Document '' @ doc_id @ '' not found''))
          else
            (case map_of vectors doc_id of
               None \<Rightarrow> Inl (Raise KeyError doc_id)
             | Some fv \<Rightarrow>
                 (case fv_values fv of
                    None \<Rightarrow> Inl (Raise KeyError ''values'')
                  | Some doc_vector \<Rightarrow>
                      (case pc_query pc doc_vector (top_k + 1) [] None True of
                         Inl e \<Rightarrow> Inl e
                       | Inr matches \<Rightarrow>
                           (case similar_results doc_id matches [] of
                              Inl e \<Rightarrow> Inl e
                            | Inr rs \<Rightarrow> Inr (py_prefix top_k rs))))))"

section \<open>Concrete collaborators\<close>

text \<open>
  Small stand-ins for the external collaborators, on which the model is evaluated: a
  language model that always answers, one that fails on the text \<open>bad\<close>, and one that is down.
\<close>

definition echo_llm :: "unit llm_env" where
  "echo_llm =
     \<lparr>llm_invoke = (\<lambda>l p inputs. (Inr [''text'' \<mapsto> '' ok ''], l)),
      map_reduce_invoke = (\<lambda>l chunks. (Inr [''output_text'' \<mapsto> ''short''], l)),
      split_text = (\<lambda>size overlap text. Inr [text])\<rparr>"

definition picky_llm :: "unit llm_env" where
  "picky_llm =
     \<lparr>llm_invoke = (\<lambda>l p inputs.
         if map_of inputs ''text'' = Some ''bad'' then (Inl (Raise APIError ''boom''), l)
         else (Inr [''text'' \<mapsto> ''fine''], l)),
      map_reduce_invoke = (\<lambda>l chunks. (Inr [''output_text'' \<mapsto> ''short''], l)),
      split_text = (\<lambda>size overlap text. Inr [text])\<rparr>"

definition down_llm :: "unit llm_env" where
  "down_llm =
     \<lparr>llm_invoke = (\<lambda>l p inputs. (Inl (Raise APIError ''generation failed''), l)),
      map_reduce_invoke = (\<lambda>l chunks. (Inl (Raise APIError ''generation failed''), l)),
      split_text = (\<lambda>size overlap text. Inr [text])\<rparr>"

definition default_chain :: "unit summarization_chain" where
  "default_chain = init_summarization_chain ()"

definition fresh_qa :: "unit qa_chain" where
  "fresh_qa = \<lparr>qa_llm = (), chat_history = []\<rparr>"


text \<open>
  An embedding backend that answers every text with its length, with the identity as digest;
  and one that replays a script of responses, one per call.
\<close>

definition length_backend :: "unit embed_env" where
  "length_backend =
     \<lparr>md5_hexdigest = (\<lambda>t. t),
      be_embed_query = (\<lambda>b t. (Inr [real (length t)], b)),
      be_embed_documents = (\<lambda>b ts. (Inr (map (\<lambda>t. [real (length t)]) ts), b))\<rparr>"

definition scripted_backend :: "(error + embedding) list embed_env" where
  "scripted_backend =
     \<lparr>md5_hexdigest = (\<lambda>t. t),
      be_embed_query = (\<lambda>b t. case b of
           [] \<Rightarrow> (Inl (Raise APIConnectionError ''no response''), [])
         | r # rs \<Rightarrow> (r, rs)),
      be_embed_documents = (\<lambda>b ts. (Inl (Raise APIConnectionError ''no response''), b))\<rparr>"

definition fresh_service :: "'b \<Rightarrow> 'b embeddings_service" where
  "fresh_service b = \<lparr>backend = b, batch_size = 100, use_cache = True, cache = Map.empty\<rparr>"

text \<open>A service that embeds two texts per batch and already holds a vector for \<open>bb\<close>.\<close>

definition warm_service :: "unit embeddings_service" where
  "warm_service =
     \<lparr>backend = (), batch_size = 2, use_cache = True, cache = [''bb'' \<mapsto> [7]]\<rparr>"

text \<open>An index holding the vector \<open>d1\<close> and two neighbours; a query returns all three.\<close>

definition demo_matches :: "match list" where
  "demo_matches =
     [\<lparr>match_id = Some ''d1'', match_score = Some 1,
       match_metadata = Some [''text'' \<mapsto> MStr ''alpha'']\<rparr>,
      \<lparr>match_id = Some ''d2'', match_score = Some 0.5,
       match_metadata = Some [''text'' \<mapsto> MStr ''beta'']\<rparr>,
      \<lparr>match_id = Some ''d3'', match_score = Some 0.25,
       match_metadata = Some [''text'' \<mapsto> MStr ''gamma'']\<rparr>]"

definition demo_index :: pinecone_env where
  "demo_index =
     \<lparr>pc_fetch = (\<lambda>ids ns. Inr (if ''d1'' \<in> set ids then [(''d1'', \<lparr>fv_values = Some [1]\<rparr>)] else [])),
      pc_query = (\<lambda>v k ns f md. Inr (take (nat k) demo_matches))\<rparr>"

definition demo_search_service :: "(unit, unit) search_service" where
  "demo_search_service =
     \<lparr>embeddings_service = fresh_service (), search_qa_chain = fresh_qa\<rparr>"

section \<open>Batch summarization\<close>

lemma batch_loop_acc:
  "batch_summarize_loop env sc texts len dt acc =
     (acc @ fst (batch_summarize_loop env sc texts len dt []),
      snd (batch_summarize_loop env sc texts len dt []))"
proof (induction texts arbitrary: sc acc)
  case Nil
  show ?case by simp
next
  case (Cons t ts)
  obtain r sc' where s: "summarize env sc t len dt = (r, sc')"
    by (cases "summarize env sc t len dt")
  have a: "batch_summarize_loop env sc' ts len dt (acc @ [batch_entry len dt r]) =
        ((acc @ [batch_entry len dt r]) @ fst (batch_summarize_loop env sc' ts len dt []),
         snd (batch_summarize_loop env sc' ts len dt []))"
    by (rule Cons.IH)
  have b: "batch_summarize_loop env sc' ts len dt ([] @ [batch_entry len dt r]) =
        (([] @ [batch_entry len dt r]) @ fst (batch_summarize_loop env sc' ts len dt []),
         snd (batch_summarize_loop env sc' ts len dt []))"
    by (rule Cons.IH)
  show ?case using a b by (simp add: s)
qed

lemma batch_summarize_Nil: "batch_summarize env sc [] len dt = ([], sc)"
  by (simp add: batch_summarize_def)

lemma batch_summarize_Cons:
  "batch_summarize env sc (t # ts) len dt =
     (batch_entry len dt (fst (summarize env sc t len dt))
        # fst (batch_summarize env (snd (summarize env sc t len dt)) ts len dt),
      snd (batch_summarize env (snd (summarize env sc t len dt)) ts len dt))"
proof -
  obtain r sc' where s: "summarize env sc t len dt = (r, sc')"
    by (cases "summarize env sc t len dt")
  have "batch_summarize_loop env sc' ts len dt [batch_entry len dt r] =
        ([batch_entry len dt r] @ fst (batch_summarize_loop env sc' ts len dt []),
         snd (batch_summarize_loop env sc' ts len dt []))"
    by (rule batch_loop_acc)
  then show ?thesis by (simp add: batch_summarize_def s)
qed

lemma batch_summarize_length:
  "length (fst (batch_summarize env sc texts len dt)) = length texts"
  by (induction texts arbitrary: sc) (simp_all add: batch_summarize_Nil batch_summarize_Cons)

lemma batch_summarize_nth:
  "i < length texts \<Longrightarrow>
   fst (batch_summarize env sc texts len dt) ! i =
     batch_entry len dt
       (fst (summarize env (snd (batch_summarize env sc (take i texts) len dt))
               (texts ! i) len dt))"
proof (induction texts arbitrary: sc i)
  case Nil
  then show ?case by simp
next
  case (Cons t ts)
  show ?case
  proof (cases i)
    case 0
    then show ?thesis by (simp add: batch_summarize_Cons batch_summarize_Nil)
  next
    case (Suc j)
    with Cons.prems have "j < length ts" by simp
    from Cons.IH [OF this] Suc show ?thesis by (simp add: batch_summarize_Cons)
  qed
qed

text \<open>
  Claim C7. \<open>batch_summarize\<close> always returns, with one entry per input text, in input
  order. Entry \<open>i\<close> is the outcome of \<open>summarize\<close> on text \<open>i\<close>, run in the state the chain has
  after the first \<open>i\<close> texts. When that call returns a summary, the entry is that summary; when
  it raises, the entry is the error record: an empty summary, under \<open>error\<close> the message
  \<open>str(e)\<close> of the very error raised for text \<open>i\<close>, and the requested length and document
  type. A failure therefore neither ends the batch nor changes the entries of the other texts.
\<close>

theorem batch_summarize_isolates_failures:
  "length (fst (batch_summarize env sc texts len dt)) = length texts \<and>
   (\<forall>i < length texts.
      (\<forall>r. fst (summarize env (snd (batch_summarize env sc (take i texts) len dt))
                  (texts ! i) len dt) = Inr r \<longrightarrow>
           fst (batch_summarize env sc texts len dt) ! i = r) \<and>
      (\<forall>k msg. fst (summarize env (snd (batch_summarize env sc (take i texts) len dt))
                  (texts ! i) len dt) = Inl (Raise k msg) \<longrightarrow>
           fst (batch_summarize env sc texts len dt) ! i =
             \<lparr>summary = [], error_msg = Some msg, length_field = len,
              document_type_field = dt, method_field = None, num_chunks = None\<rparr>))"
proof (intro conjI allI impI)
  show "length (fst (batch_summarize env sc texts len dt)) = length texts"
    by (rule batch_summarize_length)
next
  fix i r
  assume "i < length texts"
    and "fst (summarize env (snd (batch_summarize env sc (take i texts) len dt))
                (texts ! i) len dt) = Inr r"
  then show "fst (batch_summarize env sc texts len dt) ! i = r"
    by (simp add: batch_summarize_nth batch_entry_def)
next
  fix i k msg
  assume "i < length texts"
    and "fst (summarize env (snd (batch_summarize env sc (take i texts) len dt))
                (texts ! i) len dt) = Inl (Raise k msg)"
  then show "fst (batch_summarize env sc texts len dt) ! i =
             \<lparr>summary = [], error_msg = Some msg, length_field = len,
              document_type_field = dt, method_field = None, num_chunks = None\<rparr>"
    by (simp add: batch_summarize_nth batch_entry_def)
qed

text \<open>
  Three texts, the second of which the backend rejects: the outer two are summarized, and
  the entry of the second holds the message of its error.
\<close>

theorem batch_summarize_isolates_failures_witness:
  "length (fst (batch_summarize picky_llm default_chain [''a'', ''bad'', ''c''] ''brief'' ''general'')) = 3 \<and>
   fst (batch_summarize picky_llm default_chain [''a'', ''bad'', ''c''] ''brief'' ''general'') ! 1 =
     \<lparr>summary = [], error_msg = Some ''boom'', length_field = ''brief'',
      document_type_field = ''general'', method_field = None, num_chunks = None\<rparr> \<and>
   fst (batch_summarize picky_llm default_chain [''a'', ''bad'', ''c''] ''brief'' ''general'') ! 2 =
     \<lparr>summary = ''fine'', error_msg = None, length_field = ''brief'',
      document_type_field = ''general'', method_field = Some ''single_pass'',
      num_chunks = None\<rparr>"
proof -
  let ?texts = "[''a'', ''bad'', ''c'']"
  note c7 = batch_summarize_isolates_failures
              [of picky_llm default_chain ?texts "''brief''" "''general''"]
  have len: "length (fst (batch_summarize picky_llm default_chain ?texts ''brief'' ''general'')) = 3"
    using c7 by simp
  have i1: "(1::nat) < length ?texts" and i2: "(2::nat) < length ?texts" by simp_all
  have sa: "summarize picky_llm default_chain ''a'' ''brief'' ''general'' =
              (Inr \<lparr>summary = ''fine'', error_msg = None, length_field = ''brief'',
                    document_type_field = ''general'',
                    method_field = Some ''single_pass'', num_chunks = None\<rparr>, default_chain)"
    by (simp add: summarize_def estimate_tokens_def picky_llm_def get_summary_prompt_def
        dict_get_def strip_def is_space_def default_chain_def init_summarization_chain_def)
  have sb: "summarize picky_llm default_chain ''bad'' ''brief'' ''general'' =
              (Inl (Raise APIError ''boom''), default_chain)"
    by (simp add: summarize_def estimate_tokens_def picky_llm_def get_summary_prompt_def
        default_chain_def init_summarization_chain_def)
  have sc: "summarize picky_llm default_chain ''c'' ''brief'' ''general'' =
              (Inr \<lparr>summary = ''fine'', error_msg = None, length_field = ''brief'',
                    document_type_field = ''general'',
                    method_field = Some ''single_pass'', num_chunks = None\<rparr>, default_chain)"
    by (simp add: summarize_def estimate_tokens_def picky_llm_def get_summary_prompt_def
        dict_get_def strip_def is_space_def default_chain_def init_summarization_chain_def)
  have t1: "snd (batch_summarize picky_llm default_chain [''a''] ''brief'' ''general'') =
              default_chain"
    by (simp add: batch_summarize_Cons batch_summarize_Nil sa)
  have t2: "snd (batch_summarize picky_llm default_chain [''a'', ''bad''] ''brief'' ''general'') =
              default_chain"
    by (simp add: batch_summarize_Cons batch_summarize_Nil sa sb)
  have r1: "fst (summarize picky_llm
                  (snd (batch_summarize picky_llm default_chain (take 1 ?texts) ''brief'' ''general''))
                  (?texts ! 1) ''brief'' ''general'') = Inl (Raise APIError ''boom'')"
    by (simp add: t1 sb)
  have r2: "fst (summarize picky_llm
                  (snd (batch_summarize picky_llm default_chain (take 2 ?texts) ''brief'' ''general''))
                  (?texts ! 2) ''brief'' ''general'') =
              Inr \<lparr>summary = ''fine'', error_msg = None, length_field = ''brief'',
                    document_type_field = ''general'',
                    method_field = Some ''single_pass'', num_chunks = None\<rparr>"
    by (simp add: t2 sc)
  note e1 = c7 [THEN conjunct2, rule_format, OF i1, THEN conjunct2, rule_format, OF r1]
  note e2 = c7 [THEN conjunct2, rule_format, OF i2, THEN conjunct1, rule_format, OF r2]
  show ?thesis
    using len e1 e2 by simp
qed

section \<open>Long texts are summarized by map-reduce\<close>

text \<open>
  Claim C9. For a chain with the 4000-token limit and a text whose estimate
  \<open>len(text) // 4\<close> exceeds it, \<open>summarize\<close> is \<open>_map_reduce_summarize\<close> on that text,
  whatever length and document type were requested; every result it returns has the length
  \<open>standard\<close>, the document type \<open>general\<close> and the method \<open>map_reduce\<close>; and it returns
  a result whenever the splitter and the map-reduce chain succeed.
\<close>

theorem summarize_long_text_map_reduce:
  assumes "max_doc_length sc = 4000" and "int (length text) div 4 > 4000"
  shows "summarize env sc text len dt = map_reduce_summarize env sc text \<and>
         (\<forall>r sc'. summarize env sc text len dt = (Inr r, sc') \<longrightarrow>
            length_field r = ''standard'' \<and> document_type_field r = ''general'' \<and>
            method_field r = Some ''map_reduce'') \<and>
         (\<forall>chunks result l'.
            split_text env 3000 200 text = Inr chunks \<and>
            map_reduce_invoke env (sum_llm sc) chunks = (Inr result, l') \<longrightarrow>
            (\<exists>r sc'. summarize env sc text len dt = (Inr r, sc')))"
proof -
  have eq: "summarize env sc text len dt = map_reduce_summarize env sc text"
    using assms by (simp add: summarize_def estimate_tokens_def)
  have fields: "\<forall>r sc'. map_reduce_summarize env sc text = (Inr r, sc') \<longrightarrow>
            length_field r = ''standard'' \<and> document_type_field r = ''general'' \<and>
            method_field r = Some ''map_reduce''"
    by (auto simp: map_reduce_summarize_def split: sum.splits prod.splits)
  have returns: "\<forall>chunks result l'.
            split_text env 3000 200 text = Inr chunks \<and>
            map_reduce_invoke env (sum_llm sc) chunks = (Inr result, l') \<longrightarrow>
            (\<exists>r sc'. map_reduce_summarize env sc text = (Inr r, sc'))"
    by (auto simp: map_reduce_summarize_def)
  show ?thesis using eq fields returns by simp
qed

text \<open>A text of 16004 characters, asked for as a brief technical summary.\<close>

theorem summarize_long_text_map_reduce_witness:
  "max_doc_length default_chain = 4000 \<and>
   int (length (replicate 16004 (CHR ''a''))) div 4 > 4000 \<and>
   fst (summarize echo_llm default_chain (replicate 16004 (CHR ''a'')) ''brief'' ''technical'') =
     Inr \<lparr>summary = ''short'', error_msg = None, length_field = ''standard'',
          document_type_field = ''general'', method_field = Some ''map_reduce'',
          num_chunks = Some 1\<rparr>"
proof -
  have h1: "max_doc_length default_chain = 4000"
    by (simp add: default_chain_def init_summarization_chain_def)
  have h2: "int (length (replicate 16004 (CHR ''a''))) div 4 > 4000" by simp
  have "summarize echo_llm default_chain (replicate 16004 (CHR ''a'')) ''brief'' ''technical'' =
        map_reduce_summarize echo_llm default_chain (replicate 16004 (CHR ''a''))"
    using summarize_long_text_map_reduce [OF h1 h2] by blast
  then show ?thesis using h1 h2
    by (simp add: map_reduce_summarize_def echo_llm_def dict_get_def strip_def is_space_def)
qed

section \<open>The conversation history\<close>





section \<open>Retrieval followed by a failing generation\<close>

text \<open>
  Claim C5, amended. When the search of \<open>search_with_answer\<close> succeeds and the generation
  step then fails, the call fails with exactly the error of the generation step, and that
  error is all the caller gets: no response is returned, so the retrieved results are not
  part of the outcome.
\<close>

theorem generation_failure_drops_sources:
  assumes "search eenv pc svc query top_k [] None = (Inr sr, svc')"
    and "answer_question lenv (search_qa_chain svc') query
           (join [CHR 0x0A, CHR 0x0A] (context_parts 0 (resp_results sr))) True = (Inl e, qa')"
  shows "search_with_answer eenv pc lenv svc query top_k = (Inl e, svc'\<lparr>search_qa_chain := qa'\<rparr>)"
  using assms by (simp add: search_with_answer_def)

lemma demo_search:
  "search length_backend demo_index demo_search_service ''q'' 2 [] None =
     (Inr \<lparr>resp_query = ''q'',
           resp_results =
             [\<lparr>document_id = ''d1'', score = 1, text_field = ''alpha'',
               result_metadata = [''text'' \<mapsto> MStr ''alpha'']\<rparr>,
              \<lparr>document_id = ''d2'', score = 0.5, text_field = ''beta'',
               result_metadata = [''text'' \<mapsto> MStr ''beta'']\<rparr>],
           total_results = 2\<rparr>,
      demo_search_service\<lparr>embeddings_service :=
         (fresh_service ())\<lparr>cache := [''q'' \<mapsto> [1]]\<rparr>\<rparr>)"
  by (simp add: search_def embed_text_def length_backend_def demo_index_def demo_matches_def
      demo_search_service_def fresh_service_def get_cache_key_def search_result_of_def
      match_text_def match_metadata_or_empty_def numeral_2_eq_2)

text \<open>
  Claim C5, as stated, fails: on an index where the search finds two sources and with a
  language model that is down, the outcome is the generation error alone.
\<close>

theorem sources_lost_counterexample:
  "map_sum id (map document_id \<circ> resp_results)
      (fst (search length_backend demo_index demo_search_service ''q'' 2 [] None)) =
     Inr [''d1'', ''d2''] \<and>
   fst (search_with_answer length_backend demo_index down_llm demo_search_service ''q'' 2) =
     Inl (Raise APIError ''generation failed'')"
  by (simp add: demo_search search_with_answer_def answer_question_def down_llm_def)

theorem generation_failure_drops_sources_witness:
  "fst (search_with_answer length_backend demo_index down_llm demo_search_service ''q'' 2) =
     Inl (Raise APIError ''generation failed'')"
proof -
  let ?svc = "demo_search_service\<lparr>embeddings_service :=
         (fresh_service ())\<lparr>cache := [''q'' \<mapsto> [1]]\<rparr>\<rparr>"
  note h1 = demo_search
  have h2: "answer_question down_llm (search_qa_chain ?svc) ''q''
           (join [CHR 0x0A, CHR 0x0A] (context_parts 0 (resp_results
              \<lparr>resp_query = ''q'',
           resp_results =
             [\<lparr>document_id = ''d1'', score = 1, text_field = ''alpha'',
               result_metadata = [''text'' \<mapsto> MStr ''alpha'']\<rparr>,
              \<lparr>document_id = ''d2'', score = 0.5, text_field = ''beta'',
               result_metadata = [''text'' \<mapsto> MStr ''beta'']\<rparr>],
           total_results = 2\<rparr>))) True =
        (Inl (Raise APIError ''generation failed''), search_qa_chain ?svc)"
    by (simp add: answer_question_def down_llm_def)
  show ?thesis using generation_failure_drops_sources [OF h1 h2] by simp
qed

section \<open>A failing embedding backend\<close>

text \<open>
  Claim C4, as stated, fails: \<open>embed_text\<close> does not retry. With a backend that is
  rate-limited on the first call and would answer the second, the call fails with the
  backend's own \<open>RateLimitError\<close> after that first call; the vector that a second call
  would get is never asked for.
\<close>

theorem embed_text_retry_counterexample:
  "fst (embed_text scripted_backend
          (fresh_service [Inl (Raise RateLimitError ''rate limit''), Inr [1]]) ''hello'') =
     Inl (Raise RateLimitError ''rate limit'') \<and>
   backend (snd (embed_text scripted_backend
          (fresh_service [Inl (Raise RateLimitError ''rate limit''), Inr [1]]) ''hello'')) =
     [Inr [1]]"
  by (simp add: embed_text_def scripted_backend_def fresh_service_def get_cache_key_def)

text \<open>
  Claim C4, amended. \<open>embed_text\<close> calls the backend's \<open>embed_query\<close> once and adds no retry
  of its own. When the text is not served from the cache and that call raises, \<open>embed_text\<close>
  fails with that same error, unchanged, and the service is as before but for the state the
  backend has after that one call. Conversely, every failure of \<open>embed_text\<close> is the failure
  of that one call on a text that the cache did not serve, and it leaves the cache as it was.
\<close>

theorem embed_text_reraises_backend_error:
  "(\<forall>e b'. (\<not> use_cache s \<or> cache s (get_cache_key env t) = None) \<longrightarrow>
            be_embed_query env (backend s) t = (Inl e, b') \<longrightarrow>
            embed_text env s t = (Inl e, s\<lparr>backend := b'\<rparr>)) \<and>
   (\<forall>e s'. embed_text env s t = (Inl e, s') \<longrightarrow>
            (\<not> use_cache s \<or> cache s (get_cache_key env t) = None) \<and>
            be_embed_query env (backend s) t = (Inl e, backend s') \<and>
            s' = s\<lparr>backend := backend s'\<rparr> \<and>
            cache s' = cache s)"
proof -
  have fwd: "embed_text env s t = (Inl e, s\<lparr>backend := b'\<rparr>)"
    if "\<not> use_cache s \<or> cache s (get_cache_key env t) = None"
      and "be_embed_query env (backend s) t = (Inl e, b')" for e b'
    using that by (cases "use_cache s") (simp_all add: embed_text_def)
  have bwd: "(\<not> use_cache s \<or> cache s (get_cache_key env t) = None) \<and>
            be_embed_query env (backend s) t = (Inl e, backend s') \<and>
            s' = s\<lparr>backend := backend s'\<rparr> \<and>
            cache s' = cache s"
    if f: "embed_text env s t = (Inl e, s')" for e s'
  proof -
    obtain r b' where q: "be_embed_query env (backend s) t = (r, b')"
      by (cases "be_embed_query env (backend s) t")
    have m: "(if use_cache s then cache s (get_cache_key env t) else None) = None"
    proof (cases "if use_cache s then cache s (get_cache_key env t) else None")
      case None
      then show ?thesis .
    next
      case (Some v)
      then have "embed_text env s t = (Inr v, s)" by (simp add: embed_text_def)
      with f show ?thesis by simp
    qed
    have miss: "\<not> use_cache s \<or> cache s (get_cache_key env t) = None"
      using m by (cases "use_cache s") simp_all
    from f m q have r: "r = Inl e" and s': "s' = s\<lparr>backend := b'\<rparr>"
      by (cases r; simp add: embed_text_def)+
    from q r s' miss show ?thesis by simp
  qed
  from fwd bwd show ?thesis by blast
qed

text \<open>A timeout on the first call, with a cache that holds another text.\<close>

theorem embed_text_reraises_backend_error_witness:
  "embed_text scripted_backend
     \<lparr>backend = [Inl (Raise APITimeoutError ''timed out''), Inr [2]], batch_size = 100,
      use_cache = True, cache = [''other'' \<mapsto> [3]]\<rparr> ''hello'' =
   (Inl (Raise APITimeoutError ''timed out''),
     \<lparr>backend = [Inr [2]], batch_size = 100,
      use_cache = True, cache = [''other'' \<mapsto> [3]]\<rparr>)"
proof -
  let ?s = "\<lparr>backend = [Inl (Raise APITimeoutError ''timed out''), Inr [2::real]], batch_size = 100,
      use_cache = True, cache = [''other'' \<mapsto> [3::real]]\<rparr>"
  have miss: "\<not> use_cache ?s \<or> cache ?s (get_cache_key scripted_backend ''hello'') = None"
    by (simp add: get_cache_key_def scripted_backend_def)
  have fail: "be_embed_query scripted_backend (backend ?s) ''hello'' =
                (Inl (Raise APITimeoutError ''timed out''), [Inr [2::real]])"
    by (simp add: scripted_backend_def)
  note w = embed_text_reraises_backend_error
             [of ?s scripted_backend "''hello''", THEN conjunct1, rule_format, OF miss fail]
  show ?thesis using w by simp
qed

section \<open>Similar documents\<close>

lemma similar_results_excludes:
  "similar_results d ms acc = Inr rs \<Longrightarrow> \<forall>r\<in>set rs. r \<in> set acc \<or> document_id r \<noteq> d"
proof (induction ms arbitrary: acc)
  case Nil
  then show ?case by simp
next
  case (Cons m ms)
  show ?case
  proof (cases "match_id m")
    case None
    with Cons.prems show ?thesis by simp
  next
    case (Some i)
    show ?thesis
    proof (cases "i = d")
      case True
      with Some Cons.prems have "similar_results d ms acc = Inr rs" by simp
      then show ?thesis by (rule Cons.IH)
    next
      case False
      with Some Cons.prems obtain x t where
        r: "similar_results d ms (acc @ [\<lparr>document_id = i, score = x, text_field = t,
              result_metadata = match_metadata_or_empty m\<rparr>]) = Inr rs"
        by (auto split: option.splits sum.splits)
      from Cons.IH [OF r] False show ?thesis by auto
    qed
  qed
qed

lemma similar_results_returns:
  "\<forall>m\<in>set ms. complete_match m \<Longrightarrow> \<exists>rs. similar_results d ms acc = Inr rs"
proof (induction ms arbitrary: acc)
  case Nil
  then show ?case by simp
next
  case (Cons m ms)
  then have cm: "complete_match m" and rest: "\<forall>m\<in>set ms. complete_match m" by simp_all
  from cm obtain i x t where
    m: "match_id m = Some i" "match_score m = Some x" "match_text m = Inr t"
    by (auto simp: complete_match_def split: sum.splits)
  show ?case using Cons.IH [OF rest] by (simp add: m)
qed

lemma py_prefix_length: "0 \<le> k \<Longrightarrow> int (length (py_prefix k xs)) \<le> k"
  by (simp add: py_prefix_def)

lemma py_prefix_subset: "set (py_prefix k xs) \<subseteq> set xs"
  by (simp add: py_prefix_def set_take_subset)

text \<open>
  Claim C6. For a document whose vector the index holds, and a query that returns complete
  matches, \<open>find_similar_documents\<close> returns a list that never contains the source
  document's id and, for a count \<open>top_k\<close> that is not negative, has at most \<open>top_k\<close>
  entries.
\<close>

theorem find_similar_excludes_source:
  assumes "pc_fetch pc [doc_id] [] = Inr vectors"
    and "map_of vectors doc_id = Some fv"
    and "fv_values fv = Some v"
    and "pc_query pc v (top_k + 1) [] None True = Inr matches"
    and "\<forall>m\<in>set matches. complete_match m"
  shows "\<exists>rs. find_similar_documents pc doc_id top_k = Inr rs \<and>
              (\<forall>r\<in>set rs. document_id r \<noteq> doc_id) \<and>
              (0 \<le> top_k \<longrightarrow> int (length rs) \<le> top_k)"
proof -
  from assms(5) obtain rs0 where rs0: "similar_results doc_id matches [] = Inr rs0"
    using similar_results_returns by blast
  from assms(2) have ne: "vectors \<noteq> []" by auto
  have res: "find_similar_documents pc doc_id top_k = Inr (py_prefix top_k rs0)"
    using assms(1-4) ne rs0 by (simp add: find_similar_documents_def)
  have ex: "\<forall>r\<in>set rs0. document_id r \<noteq> doc_id"
    using similar_results_excludes [OF rs0] by simp
  have "\<forall>r\<in>set (py_prefix top_k rs0). document_id r \<noteq> doc_id"
    using ex py_prefix_subset [of top_k rs0] by blast
  moreover have "0 \<le> top_k \<longrightarrow> int (length (py_prefix top_k rs0)) \<le> top_k"
    using py_prefix_length by blast
  ultimately show ?thesis using res by blast
qed

theorem find_similar_excludes_source_witness:
  "find_similar_documents demo_index ''d1'' 1 =
     Inr [\<lparr>document_id = ''d2'', score = 0.5, text_field = ''beta'',
           result_metadata = [''text'' \<mapsto> MStr ''beta'']\<rparr>]"
proof -
  have h1: "pc_fetch demo_index [''d1''] [] = Inr [(''d1'', \<lparr>fv_values = Some [1]\<rparr>)]"
    by (simp add: demo_index_def)
  have h2: "map_of [(''d1'', \<lparr>fv_values = Some [1]\<rparr>)] ''d1'' = Some \<lparr>fv_values = Some [1]\<rparr>"
    by simp
  have h3: "fv_values \<lparr>fv_values = Some [1]\<rparr> = Some [1]" by simp
  have h4: "pc_query demo_index [1] (1 + 1) [] None True = Inr (take 2 demo_matches)"
    by (simp add: demo_index_def)
  have h5: "\<forall>m\<in>set (take 2 demo_matches). complete_match m"
    by (simp add: demo_matches_def complete_match_def match_text_def numeral_2_eq_2
        del: not_None_eq)
  from find_similar_excludes_source [OF h1 h2 h3 h4 h5]
  obtain rs where rs: "find_similar_documents demo_index ''d1'' 1 = Inr rs"
    and "\<forall>r\<in>set rs. document_id r \<noteq> ''d1''" and "int (length rs) \<le> 1"
    by auto
  have "find_similar_documents demo_index ''d1'' 1 =
     Inr [\<lparr>document_id = ''d2'', score = 0.5, text_field = ''beta'',
           result_metadata = [''text'' \<mapsto> MStr ''beta'']\<rparr>]"
    by (simp add: find_similar_documents_def demo_index_def demo_matches_def
        match_text_def match_metadata_or_empty_def py_prefix_def numeral_2_eq_2)
  with rs show ?thesis by simp
qed

section \<open>Batch embedding and the vectors prepared for the index\<close>

lemma check_cache_result:
  "check_cache env c i texts (embs, tte, tidx) =
     (embs @ map (\<lambda>t. c (get_cache_key env t)) texts,
      tte @ map snd (filter (\<lambda>(k, t). c (get_cache_key env t) = None)
                       (zip [i..<i + length texts] texts)),
      tidx @ map fst (filter (\<lambda>(k, t). c (get_cache_key env t) = None)
                        (zip [i..<i + length texts] texts)))"
proof (induction texts arbitrary: i embs tte tidx)
  case Nil
  show ?case by simp
next
  case (Cons t ts)
  have u: "[i..<Suc (i + length ts)] = i # [Suc i..<Suc (i + length ts)]"
    by (simp add: upt_rec)
  show ?case
    by (cases "c (get_cache_key env t)") (simp_all add: u Cons.IH del: upt_Suc)
qed

lemma store_batch_length:
  "store_batch env uc texts tidx i j vs (embs, c) = (r, embs', c') \<Longrightarrow>
   length embs' = length embs"
proof (induction vs arbitrary: j embs c)
  case Nil
  then show ?case by simp
next
  case (Cons v rest)
  show ?case
  proof (cases "length tidx \<le> i + j \<or> length embs \<le> tidx ! (i + j) \<or>
                (uc \<and> length texts \<le> tidx ! (i + j))")
    case True
    with Cons.prems show ?thesis by (auto simp: Let_def split: if_splits)
  next
    case False
    with Cons.prems have
      "store_batch env uc texts tidx i (Suc j) rest
         (embs[tidx ! (i + j) := Some v],
          if uc then c(get_cache_key env (texts ! (tidx ! (i + j))) \<mapsto> v) else c) =
       (r, embs', c')"
      by (cases uc) (simp_all add: Let_def)
    from Cons.IH [OF this] show ?thesis by simp
  qed
qed

lemma embed_batches_length:
  "embed_batches env bs uc texts tte tidx i b st = (r, st', b') \<Longrightarrow>
   length (fst st') = length (fst st)"
proof (induction "length tte - i" arbitrary: i b st rule: less_induct)
  case less
  show ?case
  proof (cases "bs = 0 \<or> length tte \<le> i")
    case True
    with less.prems show ?thesis by (simp add: embed_batches.simps)
  next
    case False
    obtain res b1 where d: "be_embed_documents env b (take bs (drop i tte)) = (res, b1)"
      by (cases "be_embed_documents env b (take bs (drop i tte))")
    show ?thesis
    proof (cases res)
      case (Inl e)
      with less.prems False d show ?thesis by (simp add: embed_batches.simps)
    next
      case (Inr vs)
      obtain r1 st1 where sb: "store_batch env uc texts tidx i 0 vs st = (r1, st1)"
        by (cases "store_batch env uc texts tidx i 0 vs st")
      have l1: "length (fst st1) = length (fst st)"
        using sb store_batch_length [of env uc texts tidx i 0 vs "fst st" "snd st" r1 "fst st1" "snd st1"]
        by simp
      show ?thesis
      proof (cases r1)
        case (Some e)
        with less.prems False d Inr sb l1 show ?thesis by (simp add: embed_batches.simps)
      next
        case None
        with less.prems False d Inr sb have
          rec: "embed_batches env bs uc texts tte tidx (i + bs) b1 st1 = (r, st', b')"
          by (simp add: embed_batches.simps)
        have "length tte - (i + bs) < length tte - i" using False by arith
        from less.hyps [OF this rec] l1 show ?thesis by simp
      qed
    qed
  qed
qed

lemma embed_texts_length:
  assumes "embed_texts env s texts = (Inr embs, s')"
  shows "length embs = length texts"
proof -
  obtain e0 tte tidx where
    p: "(if use_cache s then check_cache env (cache s) 0 texts ([], [], [])
         else (replicate (length texts) None, texts, [0..<length texts])) = (e0, tte, tidx)"
    by (metis prod_cases3)
  have l0: "length e0 = length texts"
    using p by (auto simp: check_cache_result split: if_splits)
  show ?thesis
  proof (cases "tte = [] \<or> batch_size s < 0")
    case True
    with assms p l0 show ?thesis
      by (auto simp: embed_texts_def split: if_splits)
  next
    case False
    with assms p have pos: "batch_size s > 0"
      by (auto simp: embed_texts_def split: if_splits)
    obtain r st1 b1 where
      run0: "embed_batches env (nat (batch_size s)) (use_cache s) texts tte tidx 0 (backend s)
              (e0, cache s) = (r, st1, b1)"
      by (cases "embed_batches env (nat (batch_size s)) (use_cache s) texts tte tidx 0
                   (backend s) (e0, cache s)")
    obtain embs1 c1 where st1: "st1 = (embs1, c1)" by (cases st1)
    note run = run0 [unfolded st1]
    from embed_batches_length [OF run] l0 have "length embs1 = length texts" by simp
    moreover from assms p False pos run have "embs = embs1"
      by (auto simp: embed_texts_def split: if_splits option.splits)
    ultimately show ?thesis by simp
  qed
qed


lemma prepare_vectors_length: "length (prepare_vectors i ps) = length ps"
  by (induction i ps rule: prepare_vectors.induct) simp_all

lemma prepare_vectors_metadata:
  "k < length ps \<Longrightarrow>
   vec_metadata (prepare_vectors i ps ! k) =
     (metadata (fst (ps ! k)))(''text'' \<mapsto> MStr (take 1000 (page_content (fst (ps ! k)))))"
proof (induction i ps arbitrary: k rule: prepare_vectors.induct)
  case (1 i)
  then show ?case by simp
next
  case (2 i doc v rest)
  then show ?case by (cases k) simp_all
qed

text \<open>
  Claim C10. Every vector that \<open>embed_documents\<close> prepares, one per document chunk, stores
  under the metadata key \<open>text\<close> the first 1000 characters of the chunk's content; the
  result that \<open>search\<close> builds from a match carrying that metadata has exactly this text;
  and for a chunk longer than 1000 characters it is a strict prefix of the content.
\<close>

theorem embed_documents_stores_text_prefix:
  assumes "embed_documents env s documents = (Inr vectors, s')"
  shows "length vectors = length documents \<and>
         (\<forall>i<length documents.
            vec_metadata (vectors ! i) ''text'' =
              Some (MStr (take 1000 (page_content (documents ! i)))) \<and>
            (\<forall>m. match_metadata m = Some (vec_metadata (vectors ! i)) \<longrightarrow>
                 (\<exists>r. search_result_of m = Inr r \<and>
                      text_field r = take 1000 (page_content (documents ! i)))) \<and>
            (1000 < length (page_content (documents ! i)) \<longrightarrow>
               strict_prefix (take 1000 (page_content (documents ! i)))
                 (page_content (documents ! i))))"
proof -
  from assms obtain embs where
    et: "embed_texts env s (map page_content documents) = (Inr embs, s')"
    and v: "vectors = prepare_vectors 0 (zip documents embs)"
    by (auto simp: embed_documents_def Let_def split: prod.splits sum.splits)
  have le: "length embs = length documents"
    using embed_texts_length [OF et] by simp
  have lv: "length vectors = length documents"
    by (simp add: v prepare_vectors_length le)
  have "\<forall>i<length documents.
            vec_metadata (vectors ! i) ''text'' =
              Some (MStr (take 1000 (page_content (documents ! i)))) \<and>
            (\<forall>m. match_metadata m = Some (vec_metadata (vectors ! i)) \<longrightarrow>
                 (\<exists>r. search_result_of m = Inr r \<and>
                      text_field r = take 1000 (page_content (documents ! i)))) \<and>
            (1000 < length (page_content (documents ! i)) \<longrightarrow>
               strict_prefix (take 1000 (page_content (documents ! i)))
                 (page_content (documents ! i)))"
  proof (intro allI impI)
    fix i assume i: "i < length documents"
    then have iz: "i < length (zip documents embs)" by (simp add: le)
    have md: "vec_metadata (vectors ! i) =
        (metadata (documents ! i))(''text'' \<mapsto> MStr (take 1000 (page_content (documents ! i))))"
      using prepare_vectors_metadata [OF iz, of 0] i le by (simp add: v)
    have a: "vec_metadata (vectors ! i) ''text'' =
              Some (MStr (take 1000 (page_content (documents ! i))))"
      by (simp add: md)
    have b: "\<forall>m. match_metadata m = Some (vec_metadata (vectors ! i)) \<longrightarrow>
                 (\<exists>r. search_result_of m = Inr r \<and>
                      text_field r = take 1000 (page_content (documents ! i)))"
      by (simp add: search_result_of_def match_text_def a)
    have c: "1000 < length (page_content (documents ! i)) \<longrightarrow>
               strict_prefix (take 1000 (page_content (documents ! i)))
                 (page_content (documents ! i))"
    proof
      assume l: "1000 < length (page_content (documents ! i))"
      have "take 1000 (page_content (documents ! i)) \<noteq> page_content (documents ! i)"
      proof
        assume "take 1000 (page_content (documents ! i)) = page_content (documents ! i)"
        then have "length (take 1000 (page_content (documents ! i))) =
                   length (page_content (documents ! i))" by simp
        with l show False by simp
      qed
      then show "strict_prefix (take 1000 (page_content (documents ! i)))
                 (page_content (documents ! i))"
        by (simp add: strict_prefix_def take_is_prefix)
    qed
    from a b c show "vec_metadata (vectors ! i) ''text'' =
              Some (MStr (take 1000 (page_content (documents ! i)))) \<and>
            (\<forall>m. match_metadata m = Some (vec_metadata (vectors ! i)) \<longrightarrow>
                 (\<exists>r. search_result_of m = Inr r \<and>
                      text_field r = take 1000 (page_content (documents ! i)))) \<and>
            (1000 < length (page_content (documents ! i)) \<longrightarrow>
               strict_prefix (take 1000 (page_content (documents ! i)))
                 (page_content (documents ! i)))"
      by blast
  qed
  with lv show ?thesis by blast
qed

lemma long_doc_vectors:
  "fst (embed_documents length_backend (fresh_service ())
          [\<lparr>page_content = replicate 1001 (CHR ''x''), metadata = Map.empty\<rparr>]) =
     Inr [\<lparr>vec_id = MStr ''doc_0'', vec_values = Some [1001],
           vec_metadata = [''text'' \<mapsto> MStr (replicate 1000 (CHR ''x''))]\<rparr>]"
  by (simp add: embed_documents_def embed_texts_def fresh_service_def length_backend_def
      get_cache_key_def embed_batches.simps str_of_nat.simps [of 0])

theorem embed_documents_stores_text_prefix_witness:
  "fst (embed_documents length_backend (fresh_service ())
          [\<lparr>page_content = replicate 1001 (CHR ''x''), metadata = Map.empty\<rparr>]) =
     Inr [\<lparr>vec_id = MStr ''doc_0'', vec_values = Some [1001],
           vec_metadata = [''text'' \<mapsto> MStr (replicate 1000 (CHR ''x''))]\<rparr>] \<and>
   strict_prefix (replicate 1000 (CHR ''x'')) (replicate 1001 (CHR ''x''))"
proof -
  let ?docs = "[\<lparr>page_content = replicate 1001 (CHR ''x''), metadata = Map.empty\<rparr>]"
  let ?vs = "[\<lparr>vec_id = MStr ''doc_0'', vec_values = Some [1001],
           vec_metadata = [''text'' \<mapsto> MStr (replicate 1000 (CHR ''x''))]\<rparr>]"
  have h: "embed_documents length_backend (fresh_service ()) ?docs =
             (Inr ?vs, snd (embed_documents length_backend (fresh_service ()) ?docs))"
    using long_doc_vectors by (simp add: prod_eq_iff)
  have i: "(0::nat) < length ?docs" by simp
  have l: "1000 < length (page_content (?docs ! 0))" by simp
  from embed_documents_stores_text_prefix [OF h] i l
  have "strict_prefix (take 1000 (page_content (?docs ! 0))) (page_content (?docs ! 0))"
    by blast
  then show ?thesis using long_doc_vectors by simp
qed

section \<open>Batch embedding agrees with single embedding\<close>

lemma store_batch_result:
  assumes "i + j + length vs \<le> length tidx"
    and "\<forall>k<length tidx. tidx ! k < length embs \<and> tidx ! k < length texts"
    and "\<forall>m<length vs. vs ! m = F (tidx ! (i + j + m))"
  shows "\<exists>embs' c'. store_batch env uc texts tidx i j vs (embs, c) = (None, embs', c') \<and>
           length embs' = length embs \<and>
           (\<forall>p<length embs.
              embs' ! p = (if p \<in> set (take (length vs) (drop (i + j) tidx))
                           then Some (F p) else embs ! p))"
  using assms
proof (induction vs arbitrary: j embs c)
  case Nil
  show ?case by simp
next
  case (Cons v rest)
  define idx where "idx = tidx ! (i + j)"
  define c1 where "c1 = (if uc then c(get_cache_key env (texts ! idx) \<mapsto> v) else c)"
  have ij: "i + j < length tidx" using Cons.prems(1) by simp
  have r1: "idx < length embs" "idx < length texts"
    using Cons.prems(2) ij by (simp_all add: idx_def)
  have "(v # rest) ! 0 = F (tidx ! (i + j + 0))" using Cons.prems(3) by blast
  then have v: "v = F idx" by (simp add: idx_def)
  have step: "store_batch env uc texts tidx i j (v # rest) (embs, c) =
              store_batch env uc texts tidx i (Suc j) rest (embs[idx := Some v], c1)"
    using ij r1 by (simp add: Let_def idx_def c1_def)
  have p1: "i + Suc j + length rest \<le> length tidx" using Cons.prems(1) by simp
  have p2: "\<forall>k<length tidx. tidx ! k < length (embs[idx := Some v]) \<and> tidx ! k < length texts"
    using Cons.prems(2) by simp
  have p3: "\<forall>m<length rest. rest ! m = F (tidx ! (i + Suc j + m))"
  proof (intro allI impI)
    fix m assume "m < length rest"
    then have "Suc m < length (v # rest)" by simp
    with Cons.prems(3) have "(v # rest) ! Suc m = F (tidx ! (i + j + Suc m))" by blast
    then show "rest ! m = F (tidx ! (i + Suc j + m))" by simp
  qed
  from Cons.IH [OF p1 p2 p3] obtain embs' c' where
    res: "store_batch env uc texts tidx i (Suc j) rest (embs[idx := Some v], c1) =
            (None, embs', c')"
    and len: "length embs' = length (embs[idx := Some v])"
    and nth: "\<forall>p<length (embs[idx := Some v]).
                embs' ! p = (if p \<in> set (take (length rest) (drop (i + Suc j) tidx))
                             then Some (F p) else embs[idx := Some v] ! p)"
    by blast
  have td: "take (Suc (length rest)) (drop (i + j) tidx) =
              idx # take (length rest) (drop (Suc (i + j)) tidx)"
    using ij by (simp add: idx_def Cons_nth_drop_Suc [symmetric])
  have "\<forall>p<length embs.
          embs' ! p = (if p \<in> set (take (length (v # rest)) (drop (i + j) tidx))
                       then Some (F p) else embs ! p)"
  proof (intro allI impI)
    fix p assume p: "p < length embs"
    with nth have "embs' ! p = (if p \<in> set (take (length rest) (drop (i + Suc j) tidx))
                             then Some (F p) else embs[idx := Some v] ! p)"
      by simp
    then show "embs' ! p = (if p \<in> set (take (length (v # rest)) (drop (i + j) tidx))
                       then Some (F p) else embs ! p)"
      using p r1 v by (auto simp: td nth_list_update)
  qed
  with step res len show ?case by simp
qed

lemma embed_text_answer:
  assumes "backend_answers env E"
  shows "fst (embed_text env s t) =
           (case (if use_cache s then cache s (get_cache_key env t) else None) of
              Some v \<Rightarrow> Inr v | None \<Rightarrow> E t)"
proof -
  have q: "fst (be_embed_query env (backend s) t) = E t"
    using assms by (simp add: backend_answers_def)
  obtain r b' where c: "be_embed_query env (backend s) t = (r, b')"
    by (cases "be_embed_query env (backend s) t")
  with q have r: "r = E t" by simp
  show ?thesis
    by (cases "if use_cache s then cache s (get_cache_key env t) else None"; cases "E t")
       (simp_all add: embed_text_def c r)
qed

lemma embed_batches_result:
  assumes ans: "backend_answers env E"
    and bs: "0 < bs"
    and len: "length tidx = length tte"
    and rng: "\<forall>k<length tidx. tidx ! k < n \<and> tidx ! k < length texts \<and>
                                 texts ! (tidx ! k) = tte ! k"
  shows "length (fst st) = n \<Longrightarrow>
         embed_batches env bs uc texts tte tidx i b st = (r, st', b') \<Longrightarrow>
         length (fst st') = n \<and>
         (r = None \<longrightarrow>
            (\<forall>p<n. if p \<in> set (drop i tidx)
                    then (\<exists>v. E (texts ! p) = Inr v \<and> fst st' ! p = Some v)
                    else fst st' ! p = fst st ! p)) \<and>
         ((\<forall>k. i \<le> k \<and> k < length tte \<longrightarrow> (\<exists>v. E (tte ! k) = Inr v)) \<longrightarrow> r = None)"
proof (induction "length tte - i" arbitrary: i b st rule: less_induct)
  case less
  note n = less.prems(1) and run0 = less.prems(2)
  note unfold = embed_batches.simps [of env bs uc texts tte tidx i b st]
  note run = run0 [unfolded unfold]
  show ?case
  proof (cases "length tte \<le> i")
    case True
    with run have "r = None" "st' = st" by simp_all
    moreover from True len have "drop i tidx = []" by simp
    ultimately show ?thesis using n by simp
  next
    case False
    then have i: "i < length tte" by simp
    define batch where "batch = take bs (drop i tte)"
    obtain res b1 where d: "be_embed_documents env b batch = (res, b1)"
      by (cases "be_embed_documents env b batch")
    have ansd: "case res of Inr vs \<Rightarrow> map E batch = map Inr vs
                 | Inl e \<Rightarrow> (\<exists>t\<in>set batch. \<exists>e'. E t = Inl e')"
    proof -
      from ans have "case fst (be_embed_documents env b batch) of
                       Inr vs \<Rightarrow> map E batch = map Inr vs
                     | Inl e \<Rightarrow> (\<exists>t\<in>set batch. \<exists>e'. E t = Inl e')"
        unfolding backend_answers_def by blast
      with d show ?thesis by simp
    qed
    show ?thesis
    proof (cases res)
      case (Inl e)
      with run d False bs have r: "r = Some e" and st: "st' = st"
        by (simp_all add: batch_def)
      from ansd Inl obtain t e' where t: "t \<in> set batch" and et: "E t = Inl e'" by auto
      from t obtain m where m: "m < length batch" and tm: "batch ! m = t"
        by (auto simp: in_set_conv_nth)
      from m have "m < length tte - i" by (simp add: batch_def)
      then have mm: "i + m < length tte" by arith
      have il: "i \<le> length tte" using i by simp
      from m tm have "tte ! (i + m) = t" by (simp add: batch_def nth_drop [OF il])
      with et have "\<not> (\<exists>v. E (tte ! (i + m)) = Inr v)" by simp
      with mm have "\<not> (\<forall>k. i \<le> k \<and> k < length tte \<longrightarrow> (\<exists>v. E (tte ! k) = Inr v))"
        using le_add1 [of i m] by blast
      with r st n show ?thesis by simp
    next
      case (Inr vs)
      with ansd have mv: "map E batch = map Inr vs" by simp
      then have "length (map E batch) = length (map Inr vs)" by simp
      then have lv: "length vs = length batch" by simp
      have lb: "length batch = min bs (length tte - i)" by (simp add: batch_def)
      have ev: "\<forall>m<length vs. E (tte ! (i + m)) = Inr (vs ! m)"
      proof (intro allI impI)
        fix m assume m: "m < length vs"
        with lv have mb: "m < length batch" by simp
        from mv have "map E batch ! m = map Inr vs ! m" by simp
        with m mb have "E (batch ! m) = Inr (vs ! m)" by simp
        moreover have "i \<le> length tte" using i by simp
        then have "batch ! m = tte ! (i + m)" using mb by (simp add: batch_def nth_drop)
        ultimately show "E (tte ! (i + m)) = Inr (vs ! m)" by simp
      qed
      define F where "F = (\<lambda>p. projr (E (texts ! p)))"
      obtain embs c where st: "st = (embs, c)" by (cases st)
      from n st have le: "length embs = n" by simp
      have q1: "i + 0 + length vs \<le> length tidx" using lv lb len i by simp
      have q2: "\<forall>k<length tidx. tidx ! k < length embs \<and> tidx ! k < length texts"
        using rng le by simp
      have q3: "\<forall>m<length vs. vs ! m = F (tidx ! (i + 0 + m))"
      proof (intro allI impI)
        fix m assume m: "m < length vs"
        with q1 have k: "i + m < length tidx" by simp
        with rng have "texts ! (tidx ! (i + m)) = tte ! (i + m)" by blast
        with ev m show "vs ! m = F (tidx ! (i + 0 + m))" by (simp add: F_def)
      qed
      from store_batch_result [OF q1 q2 q3] obtain embs1 c1 where
        sb: "store_batch env uc texts tidx i 0 vs (embs, c) = (None, embs1, c1)"
        and l1: "length embs1 = length embs"
        and n1: "\<forall>p<length embs.
                   embs1 ! p = (if p \<in> set (take (length vs) (drop (i + 0) tidx))
                                then Some (F p) else embs ! p)"
        by blast
      from run d Inr sb False bs st have
        rec: "embed_batches env bs uc texts tte tidx (i + bs) b1 (embs1, c1) = (r, st', b')"
        by (simp add: batch_def)
      have dec: "length tte - (i + bs) < length tte - i" using i bs by arith
      have ln1: "length (fst (embs1, c1)) = n" using l1 le by simp
      from less.hyps [OF dec ln1 rec] have
        ih1: "length (fst st') = n"
        and ih2: "r = None \<longrightarrow>
            (\<forall>p<n. if p \<in> set (drop (i + bs) tidx)
                    then (\<exists>v. E (texts ! p) = Inr v \<and> fst st' ! p = Some v)
                    else fst st' ! p = embs1 ! p)"
        and ih3: "(\<forall>k. i + bs \<le> k \<and> k < length tte \<longrightarrow> (\<exists>v. E (tte ! k) = Inr v)) \<longrightarrow>
                  r = None"
        by simp_all
      have tk: "take (length vs) (drop i tidx) = take bs (drop i tidx)"
        using lv lb len by (simp add: min_def)
      have split: "set (drop i tidx) =
                   set (take (length vs) (drop i tidx)) \<union> set (drop (i + bs) tidx)"
      proof -
        have "set (take bs (drop i tidx) @ drop bs (drop i tidx)) =
              set (take bs (drop i tidx)) \<union> set (drop bs (drop i tidx))"
          by (rule set_append)
        then have "set (drop i tidx) = set (take bs (drop i tidx)) \<union> set (drop bs (drop i tidx))"
          by (simp only: append_take_drop_id)
        moreover have "drop bs (drop i tidx) = drop (i + bs) tidx"
          by (simp add: add.commute)
        ultimately show ?thesis by (simp add: tk)
      qed
      have fv: "\<forall>p \<in> set (take (length vs) (drop i tidx)). E (texts ! p) = Inr (F p)"
      proof
        fix p assume "p \<in> set (take (length vs) (drop i tidx))"
        then obtain m where m: "m < length vs" and pm: "p = tidx ! (i + m)"
          using q1 by (auto simp: in_set_conv_nth)
        from m q1 have "i + m < length tidx" by simp
        with rng have "texts ! (tidx ! (i + m)) = tte ! (i + m)" by blast
        with ev m pm show "E (texts ! p) = Inr (F p)" by (simp add: F_def)
      qed
      have main: "r = None \<longrightarrow>
            (\<forall>p<n. if p \<in> set (drop i tidx)
                    then (\<exists>v. E (texts ! p) = Inr v \<and> fst st' ! p = Some v)
                    else fst st' ! p = fst st ! p)"
      proof (intro impI allI)
        fix p assume rn: "r = None" and p: "p < n"
        from ih2 rn p have a: "if p \<in> set (drop (i + bs) tidx)
                    then (\<exists>v. E (texts ! p) = Inr v \<and> fst st' ! p = Some v)
                    else fst st' ! p = embs1 ! p" by blast
        from n1 p le have b: "embs1 ! p = (if p \<in> set (take (length vs) (drop i tidx))
                                then Some (F p) else embs ! p)" by simp
        show "if p \<in> set (drop i tidx)
                    then (\<exists>v. E (texts ! p) = Inr v \<and> fst st' ! p = Some v)
                    else fst st' ! p = fst st ! p"
        proof (cases "p \<in> set (drop (i + bs) tidx)")
          case True
          with a split show ?thesis by simp
        next
          case nl: False
          show ?thesis
          proof (cases "p \<in> set (take (length vs) (drop i tidx))")
            case True
            with fv have "E (texts ! p) = Inr (F p)" by blast
            moreover from a b nl True have "fst st' ! p = Some (F p)" by simp
            ultimately show ?thesis using True split by simp
          next
            case False
            with nl split have "p \<notin> set (drop i tidx)" by simp
            moreover from a b nl False have "fst st' ! p = embs ! p" by simp
            ultimately show ?thesis by (simp add: st)
          qed
        qed
      qed
      have tot: "(\<forall>k. i \<le> k \<and> k < length tte \<longrightarrow> (\<exists>v. E (tte ! k) = Inr v)) \<longrightarrow> r = None"
        using ih3 by auto
      from ih1 main tot show ?thesis by blast
    qed
  qed
qed

lemma zip_upt_mem:
  "(j, t) \<in> set (zip [0..<length xs] xs) \<longleftrightarrow> j < length xs \<and> t = xs ! j"
proof
  assume "(j, t) \<in> set (zip [0..<length xs] xs)"
  then obtain n where "[0..<length xs] ! n = j" "xs ! n = t" "n < length xs"
    by (auto simp: in_set_zip)
  then show "j < length xs \<and> t = xs ! j" by auto
next
  assume a: "j < length xs \<and> t = xs ! j"
  then have "[0..<length xs] ! j = fst (j, t) \<and> xs ! j = snd (j, t) \<and>
             j < length [0..<length xs] \<and> j < length xs"
    by simp
  then show "(j, t) \<in> set (zip [0..<length xs] xs)"
    unfolding in_set_zip by blast
qed

lemma partition_facts:
  assumes p: "(if use_cache s then check_cache env (cache s) 0 texts ([], [], [])
               else (replicate (length texts) None, texts, [0..<length texts])) = (e0, tte, tidx)"
    and hit: "\<And>t. hit t = (if use_cache s then cache s (get_cache_key env t) else None)"
  shows "length e0 = length texts"
    and "\<forall>i<length texts. e0 ! i = hit (texts ! i)"
    and "length tidx = length tte"
    and "\<forall>k<length tidx. tidx ! k < length texts \<and> texts ! (tidx ! k) = tte ! k"
    and "set tidx = {i. i < length texts \<and> hit (texts ! i) = None}"
proof -
  define Z where "Z = filter (\<lambda>(k, t). cache s (get_cache_key env t) = None)
                        (zip [0..<length texts] texts)"
  have zmem: "\<And>j t. (j, t) \<in> set Z \<longleftrightarrow>
                  j < length texts \<and> t = texts ! j \<and> cache s (get_cache_key env t) = None"
    by (auto simp: Z_def zip_upt_mem)
  show "length e0 = length texts"
    using p by (auto simp: check_cache_result split: if_splits)
  show "\<forall>i<length texts. e0 ! i = hit (texts ! i)"
    using p by (auto simp: check_cache_result hit split: if_splits)
  show "length tidx = length tte"
    using p by (auto simp: check_cache_result split: if_splits)
  show "\<forall>k<length tidx. tidx ! k < length texts \<and> texts ! (tidx ! k) = tte ! k"
  proof (cases "use_cache s")
    case False
    with p show ?thesis by auto
  next
    case True
    with p have t1: "tidx = map fst Z" and t2: "tte = map snd Z"
      by (simp_all add: check_cache_result Z_def)
    show ?thesis
    proof (intro allI impI)
      fix k assume "k < length tidx"
      then have k: "k < length Z" by (simp add: t1)
      then have "Z ! k \<in> set Z" by simp
      then have "(fst (Z ! k), snd (Z ! k)) \<in> set Z" by simp
      then have "fst (Z ! k) < length texts \<and> snd (Z ! k) = texts ! fst (Z ! k)"
        using zmem by blast
      then show "tidx ! k < length texts \<and> texts ! (tidx ! k) = tte ! k"
        using k by (simp add: t1 t2)
    qed
  qed
  show "set tidx = {i. i < length texts \<and> hit (texts ! i) = None}"
  proof (cases "use_cache s")
    case False
    with p show ?thesis by (auto simp: hit)
  next
    case True
    with p have t1: "tidx = map fst Z"
      by (simp add: check_cache_result Z_def)
    have "set (map fst Z) = {i. i < length texts \<and> cache s (get_cache_key env (texts ! i)) = None}"
    proof (intro set_eqI iffI)
      fix i assume "i \<in> set (map fst Z)"
      then obtain t where "(i, t) \<in> set Z" by auto
      then show "i \<in> {i. i < length texts \<and> cache s (get_cache_key env (texts ! i)) = None}"
        using zmem by auto
    next
      fix i assume "i \<in> {i. i < length texts \<and> cache s (get_cache_key env (texts ! i)) = None}"
      then have "(i, texts ! i) \<in> set Z" using zmem by auto
      then have "fst (i, texts ! i) \<in> fst ` set Z" by (rule imageI)
      then show "i \<in> set (map fst Z)" by simp
    qed
    then show ?thesis using True by (simp add: t1 hit)
  qed
qed

text \<open>
  Claim C3. Let the backend answer every text by a function of the text, batches included,
  and let the batch size be positive. Then every list that \<open>embed_texts\<close> returns has the
  length of the input, holds no placeholder, and has at position \<open>i\<close> the vector that
  \<open>embed_text\<close> returns for text \<open>i\<close> on the same service, whatever the cache holds and
  however the misses fall into batches; and \<open>embed_texts\<close> returns such a list whenever
  \<open>embed_text\<close> succeeds on every text of the input.
\<close>

theorem embed_texts_agrees_with_embed_text:
  assumes ans: "backend_answers env E" and bs: "0 < batch_size s"
  shows "(\<forall>vs s'. embed_texts env s texts = (Inr vs, s') \<longrightarrow>
            length vs = length texts \<and>
            (\<forall>i<length texts.
               \<exists>v. vs ! i = Some v \<and> fst (embed_text env s (texts ! i)) = Inr v)) \<and>
         ((\<forall>t\<in>set texts. \<exists>v. fst (embed_text env s t) = Inr v) \<longrightarrow>
            (\<exists>vs s'. embed_texts env s texts = (Inr vs, s')))"
proof -
  define hit where "hit = (\<lambda>t. if use_cache s then cache s (get_cache_key env t) else None)"
  have hit: "\<And>t. hit t = (if use_cache s then cache s (get_cache_key env t) else None)"
    by (simp add: hit_def)
  have et: "\<And>t. fst (embed_text env s t) = (case hit t of Some v \<Rightarrow> Inr v | None \<Rightarrow> E t)"
    using embed_text_answer [OF ans] by (simp add: hit_def)
  obtain e0 tte tidx where
    p: "(if use_cache s then check_cache env (cache s) 0 texts ([], [], [])
         else (replicate (length texts) None, texts, [0..<length texts])) = (e0, tte, tidx)"
    by (metis prod_cases3)
  note f = partition_facts [OF p hit]
  show ?thesis
  proof (cases "tte = []")
    case True
    with p have res: "embed_texts env s texts = (Inr e0, s)"
      by (simp add: embed_texts_def)
    from True f(3) have "tidx = []" by simp
    with f(5) have nohit: "\<forall>i<length texts. hit (texts ! i) \<noteq> None" by auto
    have "\<forall>i<length texts. \<exists>v. e0 ! i = Some v \<and> fst (embed_text env s (texts ! i)) = Inr v"
    proof (intro allI impI)
      fix i assume i: "i < length texts"
      with nohit obtain v where v: "hit (texts ! i) = Some v" by auto
      with f(2) i have "e0 ! i = Some v" by simp
      moreover from v have "fst (embed_text env s (texts ! i)) = Inr v" by (simp add: et)
      ultimately show "\<exists>v. e0 ! i = Some v \<and> fst (embed_text env s (texts ! i)) = Inr v"
        by blast
    qed
    with res f(1) show ?thesis by simp
  next
    case False
    define bsn where "bsn = nat (batch_size s)"
    have bsn: "0 < bsn" using bs by (simp add: bsn_def)
    obtain r st' b' where
      run: "embed_batches env bsn (use_cache s) texts tte tidx 0 (backend s) (e0, cache s) =
              (r, st', b')"
      by (cases "embed_batches env bsn (use_cache s) texts tte tidx 0 (backend s) (e0, cache s)")
    obtain embs c where st': "st' = (embs, c)" by (cases st')
    have res: "embed_texts env s texts =
                 (case r of Some e \<Rightarrow> (Inl e, s\<lparr>backend := b', cache := c\<rparr>)
                  | None \<Rightarrow> (Inr embs, s\<lparr>backend := b', cache := c\<rparr>))"
      using p False bs run st' by (cases r) (simp_all add: embed_texts_def bsn_def)
    have rng: "\<forall>k<length tidx. tidx ! k < length texts \<and> tidx ! k < length texts \<and>
                                 texts ! (tidx ! k) = tte ! k"
      using f(4) by blast
    have l0: "length (fst (e0, cache s)) = length texts" using f(1) by simp
    note rr = embed_batches_result [OF ans bsn f(3) rng l0 run [unfolded st']]
    note rr' = rr [unfolded fst_conv drop_0]
    from rr' have g1: "length embs = length texts" by blast
    from rr' have g2: "r = None \<longrightarrow>
            (\<forall>p<length texts. if p \<in> set tidx
                    then (\<exists>v. E (texts ! p) = Inr v \<and> embs ! p = Some v)
                    else embs ! p = e0 ! p)"
      by blast
    from rr' have g3: "(\<forall>k. k < length tte \<longrightarrow> (\<exists>v. E (tte ! k) = Inr v)) \<longrightarrow> r = None"
      by simp
    have partA: "\<forall>vs s'. embed_texts env s texts = (Inr vs, s') \<longrightarrow>
            length vs = length texts \<and>
            (\<forall>i<length texts.
               \<exists>v. vs ! i = Some v \<and> fst (embed_text env s (texts ! i)) = Inr v)"
    proof (intro allI impI)
      fix vs s' assume a: "embed_texts env s texts = (Inr vs, s')"
      with res have rn: "r = None" and vs: "vs = embs" by (cases r; simp)+
      have "\<forall>i<length texts.
               \<exists>v. embs ! i = Some v \<and> fst (embed_text env s (texts ! i)) = Inr v"
      proof (intro allI impI)
        fix i assume i: "i < length texts"
        from g2 rn i have gi: "if i \<in> set tidx
                    then (\<exists>v. E (texts ! i) = Inr v \<and> embs ! i = Some v)
                    else embs ! i = e0 ! i"
          by blast
        show "\<exists>v. embs ! i = Some v \<and> fst (embed_text env s (texts ! i)) = Inr v"
        proof (cases "i \<in> set tidx")
          case True
          with gi have "\<exists>v. E (texts ! i) = Inr v \<and> embs ! i = Some v" by simp
          then obtain v where v: "E (texts ! i) = Inr v" "embs ! i = Some v" by blast
          from True f(5) have "hit (texts ! i) = None" by simp
          with v show ?thesis by (simp add: et)
        next
          case nin: False
          with gi have e: "embs ! i = e0 ! i" by simp
          from nin f(5) i obtain v where v: "hit (texts ! i) = Some v" by auto
          with e f(2) i have "embs ! i = Some v" by simp
          moreover from v have "fst (embed_text env s (texts ! i)) = Inr v" by (simp add: et)
          ultimately show ?thesis by blast
        qed
      qed
      with g1 vs show "length vs = length texts \<and>
            (\<forall>i<length texts.
               \<exists>v. vs ! i = Some v \<and> fst (embed_text env s (texts ! i)) = Inr v)"
        by simp
    qed
    have partB: "(\<forall>t\<in>set texts. \<exists>v. fst (embed_text env s t) = Inr v) \<longrightarrow>
            (\<exists>vs s'. embed_texts env s texts = (Inr vs, s'))"
    proof
      assume all: "\<forall>t\<in>set texts. \<exists>v. fst (embed_text env s t) = Inr v"
      have "\<forall>k. k < length tte \<longrightarrow> (\<exists>v. E (tte ! k) = Inr v)"
      proof (intro allI impI)
        fix k assume k: "k < length tte"
        with f(3) have kk: "k < length tidx" by simp
        with f(4) have a: "tidx ! k < length texts" and b: "texts ! (tidx ! k) = tte ! k"
          by blast+
        from kk have "tidx ! k \<in> set tidx" by simp
        with f(5) have h: "hit (texts ! (tidx ! k)) = None" by simp
        from a have "texts ! (tidx ! k) \<in> set texts" by simp
        with all obtain v where "fst (embed_text env s (texts ! (tidx ! k))) = Inr v" by blast
        with h have "E (texts ! (tidx ! k)) = Inr v" by (simp add: et)
        with b show "\<exists>v. E (tte ! k) = Inr v" by auto
      qed
      with g3 have "r = None" by blast
      with res show "\<exists>vs s'. embed_texts env s texts = (Inr vs, s')" by simp
    qed
    from partA partB show ?thesis by blast
  qed
qed

text \<open>Five texts, one of them cached, embedded in batches of two.\<close>

lemma warm_batch:
  "fst (embed_texts length_backend warm_service [''a'', ''bb'', ''a'', ''cccc'', ''ddd'']) =
     Inr [Some [1], Some [7], Some [1], Some [4], Some [3]]"
  by (simp add: embed_texts_def warm_service_def length_backend_def get_cache_key_def
      embed_batches.simps numeral_2_eq_2)

theorem embed_texts_agrees_with_embed_text_witness:
  "backend_answers length_backend (\<lambda>t. Inr [real (length t)]) \<and>
   0 < batch_size warm_service \<and>
   fst (embed_texts length_backend warm_service [''a'', ''bb'', ''a'', ''cccc'', ''ddd'']) =
     Inr [Some [1], Some [7], Some [1], Some [4], Some [3]] \<and>
   fst (embed_text length_backend warm_service ''bb'') = Inr [7] \<and>
   fst (embed_text length_backend warm_service ''cccc'') = Inr [4]"
proof -
  let ?T = "[''a'', ''bb'', ''a'', ''cccc'', ''ddd'']"
  let ?V = "[Some [1], Some [7], Some [1], Some [4], Some [3::real]]"
  have h1: "backend_answers length_backend (\<lambda>t. Inr [real (length t)])"
    by (simp add: backend_answers_def length_backend_def)
  have h2: "0 < batch_size warm_service" by (simp add: warm_service_def)
  have ev: "embed_texts length_backend warm_service ?T =
              (Inr ?V, snd (embed_texts length_backend warm_service ?T))"
    using warm_batch by (simp add: prod_eq_iff)
  from embed_texts_agrees_with_embed_text [OF h1 h2, of ?T] ev
  have all: "\<forall>i<length ?T. \<exists>v. ?V ! i = Some v \<and>
               fst (embed_text length_backend warm_service (?T ! i)) = Inr v"
    by blast
  have "(1::nat) < length ?T" by simp
  with all have "\<exists>v. ?V ! 1 = Some v \<and>
               fst (embed_text length_backend warm_service (?T ! 1)) = Inr v"
    by blast
  then have a: "fst (embed_text length_backend warm_service ''bb'') = Inr [7]" by simp
  have "(3::nat) < length ?T" by simp
  with all have "\<exists>v. ?V ! 3 = Some v \<and>
               fst (embed_text length_backend warm_service (?T ! 3)) = Inr v"
    by blast
  then have b: "fst (embed_text length_backend warm_service ''cccc'') = Inr [4]" by simp
  from h1 h2 warm_batch a b show ?thesis by blast
qed

end
